theory Spec2Isabelle
  imports Complex_Main
begin

section \<open>Data model\<close>

text \<open>
  Python \<open>bytes\<close> are lists of 8-bit characters. Python floats that the program only
  passes around or compares with a dyadic constant (the tolerances, the draw of
  \<open>random.random()\<close>) are rationals.
\<close>

type_synonym bytes = string

type_synonym pixel = "nat \<times> nat \<times> nat"

text \<open>Every exception the modelled code can meet; all of them derive from \<open>Exception\<close>.\<close>

datatype py_exception =
    RequestException
  | ContentError
  | ImageError
  | EncodingError
  | CompareError
  | TypeError
  | ZeroDivisionError
  | ZipError

text \<open>
  A \<open>requests\<close> response. With \<open>stream=True\<close> the body is read when \<open>.content\<close> is first
  touched, so reading it can raise; \<open>.text\<close> is the decoded body of a plain request.
\<close>

record response =
  content :: "py_exception + bytes"
  body_text :: string

text \<open>
  The reference encoding is a face vector of the library in real mode and an integer below
  one million in demo mode (\<open>load_and_encode_face\<close>).
\<close>

datatype 'enc encoding = FaceEncoding 'enc | DemoEncoding int

text \<open>
  The world outside the program. \<open>'w\<close> is the state of the network and of the global random
  generator; the image and face primitives are functions of their arguments.
  \<^item> \<open>requests_get url timeout\<close>: \<open>requests.get\<close> followed by \<open>raise_for_status\<close>;
  \<^item> \<open>imdecode\<close>: \<open>np.frombuffer\<close> and \<open>cv2.imdecode\<close>, \<open>None\<close> when the buffer is no image;
  \<^item> \<open>face_encodings\<close>: \<open>cv2.cvtColor\<close> and \<open>face_recognition.face_encodings\<close>;
  \<^item> \<open>compare_faces r e tol\<close>: element 0 of \<open>face_recognition.compare_faces([r], e, tol)\<close>;
  \<^item> \<open>image_open\<close>: \<open>Image.open\<close>, \<open>convert('RGB')\<close>, \<open>resize((100, 100))\<close>, \<open>getdata\<close>;
  \<^item> \<open>hash_str\<close>: \<open>hash(str(pixels))\<close>;
  \<^item> \<open>random_random\<close>: \<open>random.random()\<close>, a draw in \<open>[0, 1)\<close> and the generator's next state;
  \<^item> \<open>re_findall\<close>: \<open>re.findall\<close> with the file-id pattern of \<open>get_drive_images\<close>.
\<close>

record ('w, 'img, 'enc) env =
  FACE_RECOGNITION_AVAILABLE :: bool
  requests_get :: "string \<Rightarrow> nat \<Rightarrow> 'w \<Rightarrow> (py_exception + response) \<times> 'w"
  imdecode :: "bytes \<Rightarrow> py_exception + 'img option"
  face_encodings :: "'img \<Rightarrow> py_exception + 'enc list"
  compare_faces :: "'enc \<Rightarrow> 'enc \<Rightarrow> rat \<Rightarrow> py_exception + bool"
  image_open :: "bytes \<Rightarrow> py_exception + pixel list"
  hash_str :: "pixel list \<Rightarrow> int"
  random_random :: "'w \<Rightarrow> rat \<times> 'w"
  re_findall :: "string \<Rightarrow> string list"

section \<open>Candidate discovery: \<open>get_drive_images\<close>\<close>

definition direct_url :: "string \<Rightarrow> string" where
  "direct_url file_id = ''https://drive.google.com/uc?id='' @ file_id @ ''&export=download''"

definition get_drive_images ::
  "('w, 'img, 'enc) env \<Rightarrow> string \<Rightarrow> nat \<Rightarrow> 'w \<Rightarrow> string list \<times> 'w" where
  "get_drive_images e folder_id max_images w =
     (case requests_get e (''https://drive.google.com/drive/folders/'' @ folder_id) 10 w of
        (Inl err, w') \<Rightarrow> ([], w')
      | (Inr resp, w') \<Rightarrow>
          (let potential_ids = re_findall e (body_text resp);
               image_urls = map direct_url
                 (filter (\<lambda>file_id. length file_id \<ge> 25) (take max_images potential_ids))
           in (take max_images image_urls, w')))"

section \<open>The face matcher: \<open>check_face_match\<close>\<close>

text \<open>
  The loop over the faces of one image (lines 137 to 144). A reference of the other mode's
  kind makes the library call raise.
\<close>

fun compare_each ::
  "('w, 'img, 'enc) env \<Rightarrow> 'enc encoding \<Rightarrow> rat \<Rightarrow> bytes \<Rightarrow> 'enc list
     \<Rightarrow> py_exception + (bool \<times> bytes option)" where
  "compare_each e reference_encoding tolerance data [] = Inr (False, None)"
| "compare_each e reference_encoding tolerance data (face_encoding # rest) =
     (case reference_encoding of
        DemoEncoding h \<Rightarrow> Inl TypeError
      | FaceEncoding r \<Rightarrow>
          (case compare_faces e r face_encoding tolerance of
             Inl err \<Rightarrow> Inl err
           | Inr m \<Rightarrow> if m then Inr (True, Some data)
                      else compare_each e reference_encoding tolerance data rest))"

text \<open>Real mode, the body of the inner \<open>try\<close> (lines 121 to 144).\<close>

definition real_mode_match ::
  "('w, 'img, 'enc) env \<Rightarrow> response \<Rightarrow> 'enc encoding \<Rightarrow> rat
     \<Rightarrow> py_exception + (bool \<times> bytes option)" where
  "real_mode_match e resp reference_encoding tolerance =
     (case content resp of
        Inl err \<Rightarrow> Inl err
      | Inr data \<Rightarrow>
          (case imdecode e data of
             Inl err \<Rightarrow> Inl err
           | Inr None \<Rightarrow> Inr (False, None)
           | Inr (Some img) \<Rightarrow>
               (case face_encodings e img of
                  Inl err \<Rightarrow> Inl err
                | Inr [] \<Rightarrow> Inr (False, None)
                | Inr (fe # fes) \<Rightarrow>
                    compare_each e reference_encoding tolerance data (fe # fes))))"

text \<open>
  Demo mode, the body of the inner \<open>try\<close> (lines 147 to 162). Python's \<open>or\<close> draws the
  random number only when the similarity score is 35 or more.
\<close>

definition demo_mode_match ::
  "('w, 'img, 'enc) env \<Rightarrow> response \<Rightarrow> 'enc encoding \<Rightarrow> 'w
     \<Rightarrow> (py_exception + (bool \<times> bytes option)) \<times> 'w" where
  "demo_mode_match e resp reference_encoding w =
     (case content resp of
        Inl err \<Rightarrow> (Inl err, w)
      | Inr data \<Rightarrow>
          (case image_open e data of
             Inl err \<Rightarrow> (Inl err, w)
           | Inr pixels \<Rightarrow>
               (let image_encoding = hash_str e (take 100 pixels) mod 1000000
                in case reference_encoding of
                     FaceEncoding r \<Rightarrow> (Inl TypeError, w)
                   | DemoEncoding r \<Rightarrow>
                       (let similarity_score = \<bar>image_encoding - r\<bar> mod 100
                        in if similarity_score < 35 then (Inr (True, Some data), w)
                           else (case random_random e w of
                                   (x, w') \<Rightarrow>
                                     if x < 0.25 then (Inr (True, Some data), w')
                                     else (Inr (False, None), w'))))))"

text \<open>
  The inner \<open>try\<close> with its handler (lines 119 to 166): the matcher proper, applied to a
  response that was fetched already.
\<close>

definition face_match ::
  "('w, 'img, 'enc) env \<Rightarrow> response \<Rightarrow> 'enc encoding \<Rightarrow> rat \<Rightarrow> 'w
     \<Rightarrow> (bool \<times> bytes option) \<times> 'w" where
  "face_match e resp reference_encoding tolerance w =
     (case (if FACE_RECOGNITION_AVAILABLE e
            then (real_mode_match e resp reference_encoding tolerance, w)
            else demo_mode_match e resp reference_encoding w) of
        (Inl img_error, w') \<Rightarrow> ((False, None), w')
      | (Inr res, w') \<Rightarrow> (res, w'))"

definition check_face_match ::
  "('w, 'img, 'enc) env \<Rightarrow> string \<Rightarrow> 'enc encoding \<Rightarrow> nat \<Rightarrow> rat \<Rightarrow> 'w
     \<Rightarrow> (bool \<times> bytes option) \<times> 'w" where
  "check_face_match e image_url reference_encoding timeout tolerance w =
     (case requests_get e image_url timeout w of
        (Inl err, w') \<Rightarrow> ((False, None), w')
      | (Inr resp, w') \<Rightarrow> face_match e resp reference_encoding tolerance w')"

section \<open>The scan of \<open>process_photos\<close>\<close>

text \<open>Lines 240 to 251: the number of images to process and the tolerance.\<close>

definition select_limits :: "nat \<Rightarrow> nat \<times> rat" where
  "select_limits total_images =
     (if total_images \<le> 30 then (total_images, 0.6)
      else if total_images \<le> 100 then (min total_images 60, 0.6)
      else (80, 0.65))"

text \<open>
  The session of one scan: the two variables of the source, and the log of the calls of
  \<open>check_face_match\<close> (index and url), which is how the model observes which candidates
  were fetched.
\<close>

record scan_state =
  matched_images :: "bytes list"
  processed_count :: nat
  examined :: "(nat \<times> string) list"

definition initial_state :: scan_state where
  "initial_state = \<lparr>matched_images = [], processed_count = 0, examined = []\<rparr>"

text \<open>How an iteration ends: it falls through, or one of the two \<open>break\<close>s fires.\<close>

datatype flow = NoBreak | Break1 | Break2

text \<open>Lines 269 to 274.\<close>

definition early_exit :: "nat \<Rightarrow> nat \<Rightarrow> flow" where
  "early_exit total_images n_matched =
     (if total_images > 50 \<and> n_matched \<ge> 15 then Break1
      else if total_images > 100 \<and> n_matched \<ge> 25 then Break2
      else NoBreak)"

text \<open>The percentage of the progress message (line 258); the division can raise.\<close>

definition progress_percent :: "nat \<Rightarrow> nat \<Rightarrow> py_exception + rat" where
  "progress_percent i max_images =
     (if max_images = 0 then Inl ZeroDivisionError
      else Inr ((of_nat (i + 1) / of_nat max_images) * 100))"

text \<open>The test of line 262: \<open>is_match and image_data\<close>; empty bytes and \<open>None\<close> are falsy.\<close>

fun hit :: "bool \<times> bytes option \<Rightarrow> bool" where
  "hit (is_match, None) = False"
| "hit (is_match, Some image_data) = (is_match \<and> image_data \<noteq> [])"

fun payload :: "bool \<times> bytes option \<Rightarrow> bytes" where
  "payload (is_match, None) = []"
| "payload (is_match, Some image_data) = image_data"

text \<open>
  One pass through the loop body (lines 257 to 278). An exception in the body is caught
  and the loop goes on with the next url.
\<close>

definition iteration ::
  "('w, 'img, 'enc) env \<Rightarrow> 'enc encoding \<Rightarrow> nat \<Rightarrow> nat \<Rightarrow> rat \<Rightarrow> nat \<times> string
     \<Rightarrow> scan_state \<Rightarrow> 'w \<Rightarrow> flow \<times> scan_state \<times> 'w" where
  "iteration e reference_encoding total_images max_images face_tolerance c st w =
     (case progress_percent (fst c) max_images of
        Inl err \<Rightarrow> (NoBreak, st, w)
      | Inr pct \<Rightarrow>
          (case check_face_match e (snd c) reference_encoding 15 face_tolerance w of
             (res, w') \<Rightarrow>
               (let st1 = st\<lparr>processed_count := processed_count st + 1,
                              examined := examined st @ [c]\<rparr>;
                    st2 = (if hit res
                           then st1\<lparr>matched_images := matched_images st1 @ [payload res]\<rparr>
                           else st1)
                in (early_exit total_images (length (matched_images st2)), st2, w'))))"

text \<open>The \<open>for\<close> loop of line 256 over the enumerated slice.\<close>

fun process_loop ::
  "('w, 'img, 'enc) env \<Rightarrow> 'enc encoding \<Rightarrow> nat \<Rightarrow> nat \<Rightarrow> rat \<Rightarrow> (nat \<times> string) list
     \<Rightarrow> scan_state \<Rightarrow> 'w \<Rightarrow> flow \<times> scan_state \<times> 'w" where
  "process_loop e reference_encoding total_images max_images face_tolerance [] st w =
     (NoBreak, st, w)"
| "process_loop e reference_encoding total_images max_images face_tolerance (c # cs) st w =
     (case iteration e reference_encoding total_images max_images face_tolerance c st w of
        (NoBreak, st', w') \<Rightarrow>
          process_loop e reference_encoding total_images max_images face_tolerance cs st' w'
      | (Break1, st', w') \<Rightarrow> (Break1, st', w')
      | (Break2, st', w') \<Rightarrow> (Break2, st', w'))"

text \<open>Lines 235 to 278: the scan of a list of urls.\<close>

definition scan_images ::
  "('w, 'img, 'enc) env \<Rightarrow> 'enc encoding \<Rightarrow> string list \<Rightarrow> 'w \<Rightarrow> flow \<times> scan_state \<times> 'w" where
  "scan_images e reference_encoding image_urls w =
     (let total_images = length image_urls
      in case select_limits total_images of
           (max_images, face_tolerance) \<Rightarrow>
             process_loop e reference_encoding total_images max_images face_tolerance
               (enumerate 0 (take max_images image_urls)) initial_state w)"

text \<open>
  What the matcher answers for each url of a list in turn, from world \<open>w\<close> on: the
  results the scan meets when no \<open>break\<close> fires.
\<close>

fun outcomes ::
  "('w, 'img, 'enc) env \<Rightarrow> 'enc encoding \<Rightarrow> rat \<Rightarrow> string list \<Rightarrow> 'w
     \<Rightarrow> (bool \<times> bytes option) list" where
  "outcomes e reference_encoding tol [] w = []"
| "outcomes e reference_encoding tol (u # us) w =
     (case check_face_match e u reference_encoding 15 tol w of
        (res, w') \<Rightarrow> res # outcomes e reference_encoding tol us w')"

text \<open>
  The states the loop passes through. A configuration is the way the last iteration ended,
  the candidates not yet visited, the session and the world; the list holds the
  configuration at the head of every iteration and the one the loop ends in.
\<close>

type_synonym 'w config = "flow \<times> (nat \<times> string) list \<times> scan_state \<times> 'w"

fun loop_trace ::
  "('w, 'img, 'enc) env \<Rightarrow> 'enc encoding \<Rightarrow> nat \<Rightarrow> nat \<Rightarrow> rat \<Rightarrow> (nat \<times> string) list
     \<Rightarrow> scan_state \<Rightarrow> 'w \<Rightarrow> 'w config list" where
  "loop_trace e r total_images max_images tol [] st w = [(NoBreak, [], st, w)]"
| "loop_trace e r total_images max_images tol (c # cs) st w =
     (NoBreak, c # cs, st, w) #
     (case iteration e r total_images max_images tol c st w of
        (NoBreak, st', w') \<Rightarrow> loop_trace e r total_images max_images tol cs st' w'
      | (Break1, st', w') \<Rightarrow> [(Break1, cs, st', w')]
      | (Break2, st', w') \<Rightarrow> [(Break2, cs, st', w')])"

definition scan_trace ::
  "('w, 'img, 'enc) env \<Rightarrow> 'enc encoding \<Rightarrow> string list \<Rightarrow> 'w \<Rightarrow> 'w config list" where
  "scan_trace e r image_urls w =
     (let total_images = length image_urls
      in case select_limits total_images of
           (max_images, face_tolerance) \<Rightarrow>
             loop_trace e r total_images max_images face_tolerance
               (enumerate 0 (take max_images image_urls)) initial_state w)"

text \<open>The invariant of the loop, over the configurations of one scan started in \<open>w0\<close>.\<close>

definition scan_inv ::
  "('w, 'img, 'enc) env \<Rightarrow> 'enc encoding \<Rightarrow> string list \<Rightarrow> 'w \<Rightarrow> 'w config \<Rightarrow> bool" where
  "scan_inv e r image_urls w0 cfg =
     (case cfg of (fl, cs, st, w) \<Rightarrow>
        (let tot = length image_urls;
             mx = fst (select_limits tot);
             tol = snd (select_limits tot);
             os = outcomes e r tol (take mx image_urls) w0;
             k = processed_count st
         in examined st @ cs = enumerate 0 (take mx image_urls)
          \<and> k = length (examined st)
          \<and> fl = early_exit tot (length (matched_images st))
          \<and> matched_images st = map payload (filter hit (take k os))
          \<and> outcomes e r tol (map snd cs) w = drop k os
          \<and> (tot > 50 \<longrightarrow> (\<forall>j<k. length (filter hit (take j os)) < 15))))"

text \<open>
  A candidate fails when its fetch raises, when reading or decoding its body raises, when
  the decoder finds no image or no face, or when the comparison raises.
\<close>

definition no_image_or_face :: "('w, 'img, 'enc) env \<Rightarrow> response \<Rightarrow> bool" where
  "no_image_or_face e resp =
     (case content resp of
        Inl err \<Rightarrow> False
      | Inr data \<Rightarrow>
          (case imdecode e data of
             Inl err \<Rightarrow> False
           | Inr None \<Rightarrow> True
           | Inr (Some img) \<Rightarrow>
               (case face_encodings e img of
                  Inl err \<Rightarrow> False
                | Inr [] \<Rightarrow> True
                | Inr (fe # fes) \<Rightarrow> False)))"

definition candidate_fails ::
  "('w, 'img, 'enc) env \<Rightarrow> 'enc encoding \<Rightarrow> rat \<Rightarrow> string \<Rightarrow> 'w \<Rightarrow> bool" where
  "candidate_fails e r tol url w =
     (case requests_get e url 15 w of
        (Inl err, w') \<Rightarrow> True
      | (Inr resp, w') \<Rightarrow>
          (if FACE_RECOGNITION_AVAILABLE e
           then (case real_mode_match e resp r tol of
                   Inl err \<Rightarrow> True
                 | Inr res \<Rightarrow> no_image_or_face e resp)
           else (case demo_mode_match e resp r w' of
                   (Inl err, w'') \<Rightarrow> True
                 | (Inr res, w'') \<Rightarrow> False)))"

section \<open>The archive: \<open>create_photos_zip\<close>\<close>

text \<open>
  A \<open>zipfile.ZipFile\<close> open for writing, as the list of its members in the order they
  were written. \<open>writestr\<close> is the library's; it can raise.
\<close>

datatype compression = ZIP_STORED | ZIP_DEFLATED

record zip_info =
  filename :: string
  compress_type :: compression
  file_data :: bytes

record zip_file =
  compression :: compression
  filelist :: "zip_info list"

type_synonym writestr = "zip_file \<Rightarrow> string \<Rightarrow> bytes \<Rightarrow> py_exception + zip_file"

text \<open>
  \<open>ZipFile.writestr\<close> on a memory buffer: the member is appended with the archive's
  compression method. A second member of the same name is appended as well.
\<close>

definition zipfile_writestr :: writestr where
  "zipfile_writestr z name data =
     Inr (z\<lparr>filelist := filelist z @
            [\<lparr>filename = name, compress_type = compression z, file_data = data\<rparr>]\<rparr>)"

text \<open>\<open>ZipFile.namelist\<close>, and \<open>ZipFile.read\<close>: the member written last under a name.\<close>

definition zip_namelist :: "zip_file \<Rightarrow> string list" where
  "zip_namelist z = map filename (filelist z)"

definition zip_read :: "zip_file \<Rightarrow> string \<Rightarrow> bytes option" where
  "zip_read z name =
     (case filter (\<lambda>zi. filename zi = name) (filelist z) of
        [] \<Rightarrow> None
      | zi # zis \<Rightarrow> Some (file_data (last (zi # zis))))"

text \<open>\<open>ZipFile.extractall\<close>: every member is written in turn, a later one over an earlier.\<close>

definition zip_extract :: "zip_file \<Rightarrow> (string \<rightharpoonup> bytes)" where
  "zip_extract z = map_of (rev (map (\<lambda>zi. (filename zi, file_data zi)) (filelist z)))"

text \<open>Python's \<open>str\<close> of a non-negative integer and the format \<open>03d\<close>.\<close>

definition digit_char :: "nat \<Rightarrow> char" where
  "digit_char d = char_of (48 + d)"

function str_nat :: "nat \<Rightarrow> string" where
  "str_nat n = (if n < 10 then [digit_char n] else str_nat (n div 10) @ [digit_char (n mod 10)])"
  by pat_completeness auto
termination
  by (relation "measure (\<lambda>n. n)") auto

declare str_nat.simps [simp del]

definition format_03d :: "nat \<Rightarrow> string" where
  "format_03d n = replicate (3 - length (str_nat n)) (CHR ''0'') @ str_nat n"

text \<open>The value of a string of decimal digits, to read a name back.\<close>

definition digit_val :: "char \<Rightarrow> nat" where
  "digit_val c = of_char c - 48"

definition nat_of_digits :: "string \<Rightarrow> nat" where
  "nat_of_digits s = foldl (\<lambda>a c. 10 * a + digit_val c) 0 s"

definition photo_filename :: "nat \<Rightarrow> string" where
  "photo_filename i = ''photo_'' @ format_03d (i + 1) @ ''.jpg''"

fun write_photos :: "writestr \<Rightarrow> (nat \<times> bytes) list \<Rightarrow> zip_file \<Rightarrow> py_exception + zip_file" where
  "write_photos ws [] zipf = Inr zipf"
| "write_photos ws ((i, image_data) # rest) zipf =
     (case ws zipf (photo_filename i) image_data of
        Inl err \<Rightarrow> Inl err
      | Inr zipf' \<Rightarrow> write_photos ws rest zipf')"

definition create_photos_zip :: "writestr \<Rightarrow> bytes list \<Rightarrow> zip_file option" where
  "create_photos_zip ws matched =
     (case write_photos ws (enumerate 0 matched) \<lparr>compression = ZIP_DEFLATED, filelist = []\<rparr> of
        Inl err \<Rightarrow> None
      | Inr zipf \<Rightarrow> Some zipf)"

section \<open>The handler: \<open>process_photos\<close> from line 229 on\<close>

datatype http_result =
    JsonError string nat
  | SendFile zip_file string string

text \<open>Lines 229 to 278: discovery with the default limit of 50, then the scan.\<close>

definition handler_scan ::
  "('w, 'img, 'enc) env \<Rightarrow> 'enc encoding \<Rightarrow> string \<Rightarrow> 'w
     \<Rightarrow> (string list \<times> flow \<times> scan_state \<times> 'w) option \<times> 'w" where
  "handler_scan e reference_encoding folder_id w =
     (case get_drive_images e folder_id 50 w of
        (image_urls, w1) \<Rightarrow>
          if image_urls = [] then (None, w1)
          else (Some (image_urls, scan_images e reference_encoding image_urls w1), w1))"

text \<open>
  The handler once the selfie is encoded and the folder id extracted (the request
  validation of lines 195 to 227 comes before).
\<close>

definition process_photos ::
  "('w, 'img, 'enc) env \<Rightarrow> writestr \<Rightarrow> 'enc encoding \<Rightarrow> string \<Rightarrow> 'w \<Rightarrow> http_result" where
  "process_photos e ws reference_encoding folder_id w =
     (case handler_scan e reference_encoding folder_id w of
        (None, w1) \<Rightarrow> JsonError ''No images found in the folder or folder is private'' 400
      | (Some (image_urls, fl, st, w2), w1) \<Rightarrow>
          if matched_images st = [] then JsonError ''No photos found with your face'' 404
          else (case create_photos_zip ws (matched_images st) of
                  None \<Rightarrow> JsonError ''Error creating ZIP file'' 500
                | Some zip_data \<Rightarrow> SendFile zip_data ''application/zip'' ''yourphotos.zip''))"

section \<open>Two concrete worlds\<close>

text \<open>
  A demo-mode world. The state is the list of the draws to come (one half once it is
  used up). A url is served its own text as body, except \<open>bad\<close>, whose fetch raises.
  A body starting with \<open>m\<close> decodes to a pixel of hash 0, one starting with \<open>x\<close> does not
  decode, any other decodes to a pixel of hash 50.
\<close>

definition demo_env :: "(rat list, unit, unit) env" where
  "demo_env =
     \<lparr>FACE_RECOGNITION_AVAILABLE = False,
      requests_get = (\<lambda>url timeout w.
         if url = ''bad'' then (Inl RequestException, w)
         else (Inr \<lparr>content = Inr url, body_text = url\<rparr>, w)),
      imdecode = (\<lambda>data. Inr None),
      face_encodings = (\<lambda>img. Inr []),
      compare_faces = (\<lambda>r fe tol. Inr False),
      image_open = (\<lambda>data.
         case data of
           [] \<Rightarrow> Inl ImageError
         | c # cs \<Rightarrow> if c = CHR ''m'' then Inr [(0, 0, 0)]
                    else if c = CHR ''x'' then Inl ImageError
                    else Inr [(50, 0, 0)]),
      hash_str = (\<lambda>pixels. case pixels of [] \<Rightarrow> 0 | (r, g, b) # ps \<Rightarrow> int r),
      random_random = (\<lambda>w. case w of [] \<Rightarrow> (1 / 2, []) | x # xs \<Rightarrow> (x, xs)),
      re_findall = (\<lambda>txt. replicate 70 (replicate 25 (CHR ''m'')))\<rparr>"

text \<open>
  A real-mode world without state. An image is the list of the faces in it, a face is a
  number, and two faces compare equal when they are closer than the tolerance. A body is
  decoded byte by byte: \<open>x\<close> first makes the decoder give \<open>None\<close>, every other byte is a
  face of its code.
\<close>

definition real_env :: "(unit, nat list, nat) env" where
  "real_env =
     \<lparr>FACE_RECOGNITION_AVAILABLE = True,
      requests_get = (\<lambda>url timeout w.
         if url = ''bad'' then (Inl RequestException, w)
         else (Inr \<lparr>content = Inr url, body_text = url\<rparr>, w)),
      imdecode = (\<lambda>data.
         case data of
           [] \<Rightarrow> Inl ImageError
         | c # cs \<Rightarrow> if c = CHR ''x'' then Inr None else Inr (Some (map of_char (c # cs)))),
      face_encodings = (\<lambda>img. Inr (filter (\<lambda>f. f \<noteq> 32) img)),
      compare_faces = (\<lambda>r fe tol.
         Inr (\<bar>rat_of_nat r - rat_of_nat fe\<bar> \<le> tol)),
      image_open = (\<lambda>data. Inl ImageError),
      hash_str = (\<lambda>pixels. 0),
      random_random = (\<lambda>w. (0, w)),
      re_findall = (\<lambda>txt. [])\<rparr>"

section \<open>The loop invariant\<close>

lemma length_outcomes: "length (outcomes e r tol us w) = length us"
  by (induction us arbitrary: w) (auto split: prod.splits)

lemma scan_inv_initial:
  "scan_inv e r urls w0
     (NoBreak, enumerate 0 (take (fst (select_limits (length urls))) urls), initial_state, w0)"
  by (simp add: scan_inv_def initial_state_def early_exit_def Let_def)

lemma iteration_pos:
  assumes "0 < mx" and "check_face_match e (snd c) r 15 tol w = (res, w')"
  shows "iteration e r tot mx tol c st w =
     (early_exit tot (length (matched_images st) + (if hit res then 1 else 0)),
      st\<lparr>processed_count := processed_count st + 1,
         examined := examined st @ [c],
         matched_images := matched_images st @ (if hit res then [payload res] else [])\<rparr>,
      w')"
  using assms by (simp add: iteration_def progress_percent_def Let_def)

lemma early_exit_NoBreak:
  "early_exit tot n = NoBreak \<Longrightarrow> 50 < tot \<Longrightarrow> n < 15"
  by (simp add: early_exit_def split: if_splits)

lemma scan_inv_step:
  assumes inv: "scan_inv e r urls w0 (NoBreak, c # cs, st, w)"
    and it: "iteration e r (length urls) (fst (select_limits (length urls)))
               (snd (select_limits (length urls))) c st w = (fl, st', w')"
  shows "scan_inv e r urls w0 (fl, cs, st', w')"
proof -
  define tot where "tot = length urls"
  define mx where "mx = fst (select_limits tot)"
  define tol where "tol = snd (select_limits tot)"
  define os where "os = outcomes e r tol (take mx urls) w0"
  define k where "k = processed_count st"
  obtain res w1 where chk: "check_face_match e (snd c) r 15 tol w = (res, w1)"
    by (cases "check_face_match e (snd c) r 15 tol w")
  from inv have i1: "examined st @ c # cs = enumerate 0 (take mx urls)"
    and i2: "k = length (examined st)"
    and i3: "NoBreak = early_exit tot (length (matched_images st))"
    and i4: "matched_images st = map payload (filter hit (take k os))"
    and i5': "outcomes e r tol (map snd (c # cs)) w = drop k os"
    and i6: "tot > 50 \<longrightarrow> (\<forall>j<k. length (filter hit (take j os)) < 15)"
    unfolding scan_inv_def Let_def prod.case tot_def mx_def tol_def os_def k_def
    by blast+
  from i5' have i5: "outcomes e r tol (snd c # map snd cs) w = drop k os" by simp
  from i1 have "take mx urls \<noteq> []" by (cases "take mx urls") auto
  then have mxpos: "0 < mx" by (cases mx) auto
  from i5 chk have dr: "drop k os = res # outcomes e r tol (map snd cs) w1" by simp
  then have klt: "k < length os" by (cases "k < length os") auto
  from dr klt have nth: "os ! k = res"
    by (metis Cons_nth_drop_Suc list.inject)
  from dr klt have dr': "drop (Suc k) os = outcomes e r tol (map snd cs) w1"
    by (metis Cons_nth_drop_Suc list.inject)
  have tk: "take (Suc k) os = take k os @ [res]"
    using klt nth by (simp add: take_Suc_conv_app_nth)
  from it chk mxpos have fl: "fl = early_exit tot (length (matched_images st) + (if hit res then 1 else 0))"
    and st': "st' = st\<lparr>processed_count := processed_count st + 1,
         examined := examined st @ [c],
         matched_images := matched_images st @ (if hit res then [payload res] else [])\<rparr>"
    and w': "w' = w1"
    using iteration_pos[OF mxpos chk, of tot st]
    by (simp_all add: tot_def mx_def tol_def)
  have l6: "tot > 50 \<longrightarrow> (\<forall>j<Suc k. length (filter hit (take j os)) < 15)"
  proof (intro impI allI)
    fix j assume t: "50 < tot" and j: "j < Suc k"
    show "length (filter hit (take j os)) < 15"
    proof (cases "j < k")
      case True with i6 t show ?thesis by simp
    next
      case False
      with j have "j = k" by simp
      moreover have "length (matched_images st) < 15"
        using early_exit_NoBreak[OF i3[symmetric] t] .
      ultimately show ?thesis using i4 by simp
    qed
  qed
  have p': "processed_count st' = Suc k" and e': "examined st' = examined st @ [c]"
    and m': "matched_images st' = matched_images st @ (if hit res then [payload res] else [])"
    by (simp_all add: st' k_def)
  have c1: "examined st' @ cs = enumerate 0 (take mx urls)" using i1 e' by simp
  have c2: "processed_count st' = length (examined st')" using i2 p' e' by simp
  have c3: "fl = early_exit tot (length (matched_images st'))" using fl m' by simp
  have c4: "matched_images st' = map payload (filter hit (take (processed_count st') os))"
    using i4 m' p' tk by simp
  have c5: "outcomes e r tol (map snd cs) w' = drop (processed_count st') os"
    using dr' p' w' by simp
  have c6: "tot > 50 \<longrightarrow> (\<forall>j<processed_count st'. length (filter hit (take j os)) < 15)"
    using l6 p' by simp
  show ?thesis
    unfolding scan_inv_def Let_def prod.case
    using c1 c2 c3 c4 c5 c6
    unfolding tot_def mx_def tol_def os_def k_def by blast
qed


lemma loop_trace_inv:
  assumes "scan_inv e r urls w0 (NoBreak, cs, st, w)"
    and "cfg \<in> set (loop_trace e r (length urls) (fst (select_limits (length urls)))
                      (snd (select_limits (length urls))) cs st w)"
  shows "scan_inv e r urls w0 cfg"
  using assms
proof (induction cs arbitrary: st w)
  case Nil
  then show ?case by simp
next
  case (Cons c cs)
  obtain fl st' w' where it: "iteration e r (length urls) (fst (select_limits (length urls)))
               (snd (select_limits (length urls))) c st w = (fl, st', w')"
    by (cases "iteration e r (length urls) (fst (select_limits (length urls)))
               (snd (select_limits (length urls))) c st w") auto
  have nx: "scan_inv e r urls w0 (fl, cs, st', w')"
    using scan_inv_step[OF Cons.prems(1) it] .
  show ?case
  proof (cases "cfg = (NoBreak, c # cs, st, w)")
    case True
    with Cons.prems(1) show ?thesis by simp
  next
    case False
    show ?thesis
    proof (cases fl)
      case NoBreak
      with Cons.prems(2) False it
      have "cfg \<in> set (loop_trace e r (length urls) (fst (select_limits (length urls)))
                      (snd (select_limits (length urls))) cs st' w')" by simp
      with Cons.IH nx NoBreak show ?thesis by blast
    next
      case Break1
      with Cons.prems(2) False it have "cfg = (fl, cs, st', w')" by simp
      with nx show ?thesis by simp
    next
      case Break2
      with Cons.prems(2) False it have "cfg = (fl, cs, st', w')" by simp
      with nx show ?thesis by simp
    qed
  qed
qed

lemma process_loop_in_trace:
  "process_loop e r tot mx tol cs st w = (fl, st', w') \<Longrightarrow>
     \<exists>cs'. (fl, cs', st', w') \<in> set (loop_trace e r tot mx tol cs st w)
          \<and> (fl = NoBreak \<longrightarrow> cs' = [])"
proof (induction cs arbitrary: st w)
  case Nil
  then have "(fl, [], st', w') \<in> set (loop_trace e r tot mx tol [] st w)" by simp
  then show ?case by blast
next
  case (Cons c cs)
  obtain f1 st1 w1 where it: "iteration e r tot mx tol c st w = (f1, st1, w1)"
    by (cases "iteration e r tot mx tol c st w") blast
  show ?case
  proof (cases f1)
    case NoBreak
    with Cons.prems it have "process_loop e r tot mx tol cs st1 w1 = (fl, st', w')" by simp
    from Cons.IH[OF this] obtain cs' where
      m: "(fl, cs', st', w') \<in> set (loop_trace e r tot mx tol cs st1 w1)"
      and n: "fl = NoBreak \<longrightarrow> cs' = []" by blast
    from m it NoBreak
    have "(fl, cs', st', w') \<in> set (loop_trace e r tot mx tol (c # cs) st w)" by simp
    with n show ?thesis by blast
  next
    case Break1
    with Cons.prems it have eq: "fl = Break1" "st' = st1" "w' = w1" by simp_all
    from it Break1 eq
    have "(fl, cs, st', w') \<in> set (loop_trace e r tot mx tol (c # cs) st w)" by simp
    with eq show ?thesis by blast
  next
    case Break2
    with Cons.prems it have eq: "fl = Break2" "st' = st1" "w' = w1" by simp_all
    from it Break2 eq
    have "(fl, cs, st', w') \<in> set (loop_trace e r tot mx tol (c # cs) st w)" by simp
    with eq show ?thesis by blast
  qed
qed

lemma scan_trace_unfold:
  "scan_trace e r urls w0 =
     loop_trace e r (length urls) (fst (select_limits (length urls)))
       (snd (select_limits (length urls)))
       (enumerate 0 (take (fst (select_limits (length urls))) urls)) initial_state w0"
  by (simp add: scan_trace_def Let_def case_prod_beta)

lemma scan_images_unfold:
  "scan_images e r urls w0 =
     process_loop e r (length urls) (fst (select_limits (length urls)))
       (snd (select_limits (length urls)))
       (enumerate 0 (take (fst (select_limits (length urls))) urls)) initial_state w0"
  by (simp add: scan_images_def Let_def case_prod_beta)

lemma scan_trace_inv:
  assumes "cfg \<in> set (scan_trace e r urls w0)"
  shows "scan_inv e r urls w0 cfg"
proof -
  from assms have m: "cfg \<in> set (loop_trace e r (length urls)
       (fst (select_limits (length urls))) (snd (select_limits (length urls)))
       (enumerate 0 (take (fst (select_limits (length urls))) urls)) initial_state w0)"
    unfolding scan_trace_unfold .
  from loop_trace_inv[OF scan_inv_initial m] show ?thesis .
qed

lemma scan_images_in_trace:
  assumes "scan_images e r urls w0 = (fl, st, w)"
  shows "\<exists>cs. (fl, cs, st, w) \<in> set (scan_trace e r urls w0) \<and> (fl = NoBreak \<longrightarrow> cs = [])"
  using assms unfolding scan_trace_unfold scan_images_unfold
  by (rule process_loop_in_trace)

lemma scan_images_inv:
  assumes "scan_images e r urls w0 = (fl, st, w)"
  shows "\<exists>cs. scan_inv e r urls w0 (fl, cs, st, w) \<and> (fl = NoBreak \<longrightarrow> cs = [])"
proof -
  from scan_images_in_trace[OF assms] obtain cs where
    m: "(fl, cs, st, w) \<in> set (scan_trace e r urls w0)" and n: "fl = NoBreak \<longrightarrow> cs = []"
    by blast
  from scan_trace_inv[OF m] n show ?thesis by blast
qed

section \<open>The claims\<close>

text \<open>
  C1. The limits are a function of the number of candidates alone: up to 30 candidates all
  are processed at tolerance 0.60; from 31 to 100 the first \<open>min n 60\<close> at tolerance 0.60;
  above 100 the first 80 at tolerance 0.65.
\<close>

theorem C1_select_limits:
  "(n \<le> 30 \<longrightarrow> select_limits n = (n, 0.6))
   \<and> (31 \<le> n \<and> n \<le> 100 \<longrightarrow> select_limits n = (min n 60, 0.6))
   \<and> (100 < n \<longrightarrow> select_limits n = (80, 0.65))"
  by (simp add: select_limits_def)

theorem C1_select_limits_witness:
  "select_limits 30 = (30, 0.6) \<and> select_limits 45 = (45, 0.6)
   \<and> select_limits 100 = (60, 0.6) \<and> select_limits 101 = (80, 0.65)"
  using C1_select_limits [of 30] C1_select_limits [of 45]
    C1_select_limits [of 100] C1_select_limits [of 101]
  by simp

lemma select_limits_le: "fst (select_limits n) \<le> n"
  by (simp add: select_limits_def)

lemma early_exit_not_Break2: "early_exit n m \<noteq> Break2"
  by (simp add: early_exit_def)

lemma scan_inv_examined:
  assumes "scan_inv e r urls w0 (fl, cs, st, w)"
  shows "processed_count st + length cs = fst (select_limits (length urls))"
    and "map fst (examined st) = [0..<processed_count st]"
    and "map snd (examined st) = take (processed_count st) urls"
proof -
  define mx where "mx = fst (select_limits (length urls))"
  define k where "k = processed_count st"
  from assms have a: "examined st @ cs = enumerate 0 (take mx urls)"
    and b: "k = length (examined st)"
    unfolding scan_inv_def Let_def prod.case mx_def k_def by blast+
  have mxle: "mx \<le> length urls" unfolding mx_def by (rule select_limits_le)
  from a have "length (examined st @ cs) = length (enumerate 0 (take mx urls))" by simp
  with mxle b have len: "k + length cs = mx" by simp
  then have kle: "k \<le> mx" by simp
  from a have "map fst (examined st) @ map fst cs = [0..<mx]"
    using mxle by (metis map_append map_fst_enumerate add_0 length_take min.absorb2)
  then have "take k (map fst (examined st) @ map fst cs) = take k [0..<mx]" by simp
  with b kle have f: "map fst (examined st) = [0..<k]" by (simp add: take_upt)
  from a have "map snd (examined st) @ map snd cs = take mx urls"
    by (metis map_append map_snd_enumerate)
  then have "take k (map snd (examined st) @ map snd cs) = take k (take mx urls)" by simp
  with b kle have s: "map snd (examined st) = take k urls" by (simp add: min.absorb1)
  show "processed_count st + length cs = fst (select_limits (length urls))"
    using len unfolding k_def mx_def .
  show "map fst (examined st) = [0..<processed_count st]" using f unfolding k_def .
  show "map snd (examined st) = take (processed_count st) urls" using s unfolding k_def .
qed

lemma scan_inv_flow:
  assumes "scan_inv e r urls w0 (fl, cs, st, w)"
  shows "fl = early_exit (length urls) (length (matched_images st))"
  using assms unfolding scan_inv_def Let_def prod.case by blast

text \<open>
  C3. The second \<open>break\<close> (more than 100 candidates and 25 matches) never fires: the
  test of lines 269 to 274 never answers with it, whatever the counts, because with more
  than 100 candidates and 15 matches the first \<open>break\<close> is taken already; so no scan ends
  by it and no configuration of a scan is left by it.
\<close>

theorem C3_dead_branch:
  "early_exit n m \<noteq> Break2
   \<and> (100 < n \<and> 15 \<le> m \<longrightarrow> early_exit n m = Break1)
   \<and> fst (scan_images e r urls w0) \<noteq> Break2
   \<and> (cfg \<in> set (scan_trace e r urls w0) \<longrightarrow> fst cfg \<noteq> Break2)"
proof (intro conjI impI)
  show "early_exit n m \<noteq> Break2" by (rule early_exit_not_Break2)
  show "early_exit n m = Break1" if "100 < n \<and> 15 \<le> m"
    using that by (simp add: early_exit_def)
  show "fst (scan_images e r urls w0) \<noteq> Break2"
  proof -
    obtain fl st w where s: "scan_images e r urls w0 = (fl, st, w)"
      by (cases "scan_images e r urls w0") blast
    from scan_images_inv[OF s] obtain cs where "scan_inv e r urls w0 (fl, cs, st, w)" by blast
    from scan_inv_flow[OF this] have "fl \<noteq> Break2" by (simp add: early_exit_not_Break2)
    with s show ?thesis by simp
  qed
  show "fst cfg \<noteq> Break2" if m: "cfg \<in> set (scan_trace e r urls w0)"
  proof -
    obtain fl cs st w where c: "cfg = (fl, cs, st, w)" by (cases cfg) blast
    from scan_trace_inv[OF m] c have "scan_inv e r urls w0 (fl, cs, st, w)" by simp
    from scan_inv_flow[OF this] have "fl \<noteq> Break2" by (simp add: early_exit_not_Break2)
    with c show ?thesis by simp
  qed
qed

theorem C3_dead_branch_witness:
  "early_exit 101 25 = Break1
   \<and> (Break1, enumerate 15 (replicate 65 ''m''),
        \<lparr>matched_images = replicate 15 ''m'', processed_count = 15,
         examined = enumerate 0 (replicate 15 ''m'')\<rparr>, [])
       \<in> set (scan_trace demo_env (DemoEncoding 0) (replicate 101 ''m'') [])
   \<and> fst (scan_images demo_env (DemoEncoding 0) (replicate 101 ''m'') []) = Break1"
proof -
  have a: "(100::nat) < 101 \<and> (15::nat) \<le> 25" by simp
  have b: "(Break1, enumerate 15 (replicate 65 ''m''),
        \<lparr>matched_images = replicate 15 ''m'', processed_count = 15,
         examined = enumerate 0 (replicate 15 ''m'')\<rparr>, [])
       \<in> set (scan_trace demo_env (DemoEncoding 0) (replicate 101 ''m'') [])"
    by code_simp
  have c: "fst (scan_images demo_env (DemoEncoding 0) (replicate 101 ''m'') []) = Break1"
    by code_simp
  from a b c C3_dead_branch[of 101 25 demo_env "DemoEncoding 0" "replicate 101 ''m''" "[]"
      "(Break1, enumerate 15 (replicate 65 ''m''),
        \<lparr>matched_images = replicate 15 ''m'', processed_count = 15,
         examined = enumerate 0 (replicate 15 ''m'')\<rparr>, [])"]
  show ?thesis by simp
qed

lemma scan_inv_matched:
  assumes "scan_inv e r urls w0 (fl, cs, st, w)"
  shows "matched_images st = map payload (filter hit (take (processed_count st)
           (outcomes e r (snd (select_limits (length urls)))
              (take (fst (select_limits (length urls))) urls) w0)))"
    and "50 < length urls \<longrightarrow> (\<forall>j<processed_count st. length (filter hit (take j
           (outcomes e r (snd (select_limits (length urls)))
              (take (fst (select_limits (length urls))) urls) w0))) < 15)"
  using assms unfolding scan_inv_def Let_def prod.case by blast+

lemma length_outcomes_limits:
  "length (outcomes e r tol (take (fst (select_limits (length urls))) urls) w0)
     = fst (select_limits (length urls))"
  using select_limits_le[of "length urls"] by (simp add: length_outcomes)

text \<open>
  C9. In every configuration of a scan the number of processed candidates is at most the
  limit, the limit is at most the number of candidates, and the calls of the matcher
  logged so far are those of the candidates 0, 1, ... in turn, each index once.
\<close>

theorem C9_scan_invariant:
  assumes "cfg \<in> set (scan_trace e r urls w0)"
  shows "processed_count (fst (snd (snd cfg))) \<le> fst (select_limits (length urls))
       \<and> fst (select_limits (length urls)) \<le> length urls
       \<and> length (examined (fst (snd (snd cfg)))) = processed_count (fst (snd (snd cfg)))
       \<and> map fst (examined (fst (snd (snd cfg)))) = [0..<processed_count (fst (snd (snd cfg)))]
       \<and> map snd (examined (fst (snd (snd cfg))))
            = take (processed_count (fst (snd (snd cfg)))) urls
       \<and> distinct (map fst (examined (fst (snd (snd cfg)))))"
proof -
  obtain fl cs st w where c: "cfg = (fl, cs, st, w)" by (cases cfg) blast
  from scan_trace_inv[OF assms] c have inv: "scan_inv e r urls w0 (fl, cs, st, w)" by simp
  note ex = scan_inv_examined[OF inv]
  have 1: "processed_count st \<le> fst (select_limits (length urls))" using ex(1) by simp
  have 2: "fst (select_limits (length urls)) \<le> length urls" by (rule select_limits_le)
  have "length (map fst (examined st)) = length [0..<processed_count st]"
    using ex(2) by simp
  then have 3: "length (examined st) = processed_count st" by simp
  have 4: "distinct (map fst (examined st))" using ex(2) by simp
  from 1 2 3 4 ex(2) ex(3) c show ?thesis by simp
qed

theorem C9_scan_invariant_witness:
  "(NoBreak, [(2, ''m2'')],
      \<lparr>matched_images = [''m1''], processed_count = 2,
       examined = [(0, ''m1''), (1, ''bad'')]\<rparr>, [])
     \<in> set (scan_trace demo_env (DemoEncoding 0) [''m1'', ''bad'', ''m2''] [])
   \<and> (2::nat) \<le> fst (select_limits (length [''m1'', ''bad'', ''m2'']))
   \<and> fst (select_limits (length [''m1'', ''bad'', ''m2''])) \<le> length [''m1'', ''bad'', ''m2'']
   \<and> distinct (map fst [(0::nat, ''m1''), (1, ''bad'')])"
proof -
  have m: "(NoBreak, [(2, ''m2'')],
      \<lparr>matched_images = [''m1''], processed_count = 2,
       examined = [(0, ''m1''), (1, ''bad'')]\<rparr>, [])
     \<in> set (scan_trace demo_env (DemoEncoding 0) [''m1'', ''bad'', ''m2''] [])"
    by code_simp
  note inst = C9_scan_invariant[OF m, simplified fst_conv snd_conv scan_state.select_convs]
  from inst m show ?thesis by blast
qed

lemma hits_le: "length (filter P (take j xs)) \<le> j"
  by (rule order_trans[OF length_filter_le]) simp

lemma hits_Suc: "length (filter P (take (Suc j) xs)) \<le> Suc (length (filter P (take j xs)))"
proof (cases "j < length xs")
  case True
  then show ?thesis by (simp add: take_Suc_conv_app_nth)
next
  case False
  then show ?thesis by simp
qed

lemma hits_all:
  assumes "list_all P (take n xs)" and "n \<le> length xs"
  shows "length (filter P (take n xs)) = n"
proof -
  from assms(1) have "filter P (take n xs) = take n xs"
    by (simp add: list_all_iff)
  with assms(2) show ?thesis by simp
qed

lemma select_limits_small: "n \<le> 50 \<Longrightarrow> fst (select_limits n) = n"
  by (simp add: select_limits_def)

lemma early_exit_small: "n \<le> 50 \<Longrightarrow> early_exit n m = NoBreak"
  by (simp add: early_exit_def)

lemma early_exit_large: "50 < n \<Longrightarrow> early_exit n m = (if 15 \<le> m then Break1 else NoBreak)"
  by (simp add: early_exit_def)

lemma scan_result_facts:
  assumes s: "scan_images e r urls w0 = (fl, st, w)"
  defines "mx \<equiv> fst (select_limits (length urls))"
  defines "os \<equiv> outcomes e r (snd (select_limits (length urls))) (take mx urls) w0"
  shows "processed_count st \<le> mx"
    and "fl = NoBreak \<longrightarrow> processed_count st = mx"
    and "map snd (examined st) = take (processed_count st) urls"
    and "map fst (examined st) = [0..<processed_count st]"
    and "fl = early_exit (length urls) (length (matched_images st))"
    and "matched_images st = map payload (filter hit (take (processed_count st) os))"
    and "50 < length urls \<longrightarrow>
           (\<forall>j<processed_count st. length (filter hit (take j os)) < 15)"
proof -
  from scan_images_inv[OF s] obtain cs where
    inv: "scan_inv e r urls w0 (fl, cs, st, w)" and n: "fl = NoBreak \<longrightarrow> cs = []" by blast
  note ex = scan_inv_examined[OF inv]
  show "processed_count st \<le> mx" using ex(1) unfolding mx_def by simp
  show "fl = NoBreak \<longrightarrow> processed_count st = mx" using ex(1) n unfolding mx_def by auto
  show "map snd (examined st) = take (processed_count st) urls" by (rule ex(3))
  show "map fst (examined st) = [0..<processed_count st]" by (rule ex(2))
  show "fl = early_exit (length urls) (length (matched_images st))"
    by (rule scan_inv_flow[OF inv])
  show "matched_images st = map payload (filter hit (take (processed_count st) os))"
    using scan_inv_matched(1)[OF inv] unfolding os_def mx_def .
  show "50 < length urls \<longrightarrow>
           (\<forall>j<processed_count st. length (filter hit (take j os)) < 15)"
    using scan_inv_matched(2)[OF inv] unfolding os_def mx_def .
qed

text \<open>
  C2. Only the first \<open>k\<close> candidates are examined, \<open>k\<close> the final count. With more than 50
  candidates no proper prefix of the examined candidates holds 15 matches, and the scan
  either ends by the first \<open>break\<close> right after the candidate that brings the 15th match
  or runs through its whole slice; with 60 candidates of which the first 15 match it
  examines exactly 15. With at most 50 candidates no \<open>break\<close> fires and all are examined.
\<close>

theorem C2_early_exit:
  "let tot = length urls;
       mx = fst (select_limits tot);
       os = outcomes e r (snd (select_limits tot)) (take mx urls) w0;
       fl = fst (scan_images e r urls w0);
       st = fst (snd (scan_images e r urls w0));
       k = processed_count st
   in map snd (examined st) = take k urls \<and> length (examined st) = k
    \<and> (50 < tot \<longrightarrow>
          (\<forall>j<k. length (filter hit (take j os)) < 15)
        \<and> (if length (filter hit (take k os)) = 15 then fl = Break1
            else fl = NoBreak \<and> k = mx)
        \<and> length (matched_images st) \<le> 15)
    \<and> (tot \<le> 50 \<longrightarrow> fl = NoBreak \<and> k = tot)
    \<and> (tot = 60 \<and> list_all hit (take 15 os) \<longrightarrow> k = 15 \<and> fl = Break1)"
proof -
  define tot where "tot = length urls"
  define mx where "mx = fst (select_limits tot)"
  define os where "os = outcomes e r (snd (select_limits tot)) (take mx urls) w0"
  obtain fl st w where s: "scan_images e r urls w0 = (fl, st, w)"
    by (cases "scan_images e r urls w0") blast
  define k where "k = processed_count st"
  note f = scan_result_facts[OF s, folded tot_def, folded mx_def, folded os_def, folded k_def]
  have lenos: "length os = mx"
    unfolding os_def mx_def tot_def by (rule length_outcomes_limits)
  have lm: "length (matched_images st) = length (filter hit (take k os))"
    using f(6) by simp
  have a1: "map snd (examined st) = take k urls" by (rule f(3))
  have "length (map fst (examined st)) = length [0..<k]" using f(4) by simp
  then have a2: "length (examined st) = k" by simp
  have b: "(\<forall>j<k. length (filter hit (take j os)) < 15)
        \<and> (if length (filter hit (take k os)) = 15 then fl = Break1
            else fl = NoBreak \<and> k = mx)
        \<and> length (matched_images st) \<le> 15" if big: "50 < tot"
  proof -
    from f(7) big have b1: "\<forall>j<k. length (filter hit (take j os)) < 15" by blast
    have b3: "length (filter hit (take k os)) \<le> 15"
    proof (cases k)
      case 0
      then show ?thesis by simp
    next
      case (Suc j)
      with b1 have "length (filter hit (take j os)) < 15" by simp
      with hits_Suc[of hit j os] Suc show ?thesis by simp
    qed
    have fl: "fl = (if 15 \<le> length (filter hit (take k os)) then Break1 else NoBreak)"
      using f(5) lm early_exit_large[OF big] by simp
    have b2: "if length (filter hit (take k os)) = 15 then fl = Break1
              else fl = NoBreak \<and> k = mx"
    proof (cases "length (filter hit (take k os)) = 15")
      case True
      with fl show ?thesis by simp
    next
      case False
      with b3 have "\<not> 15 \<le> length (filter hit (take k os))" by simp
      with fl have "fl = NoBreak" by simp
      with f(2) False show ?thesis by simp
    qed
    from b1 b2 b3 lm show ?thesis by simp
  qed
  have c: "fl = NoBreak \<and> k = tot" if small: "tot \<le> 50"
  proof -
    from f(5) early_exit_small[OF small] have "fl = NoBreak" by simp
    moreover from this f(2) have "k = mx" by simp
    moreover have "mx = tot" unfolding mx_def by (rule select_limits_small[OF small])
    ultimately show ?thesis by simp
  qed
  have d: "k = 15 \<and> fl = Break1" if ex: "tot = 60 \<and> list_all hit (take 15 os)"
  proof -
    from ex have big: "50 < tot" by simp
    from ex have mx60: "mx = 60" unfolding mx_def by (simp add: select_limits_def)
    from ex lenos mx60 have h15: "length (filter hit (take 15 os)) = 15"
      using hits_all[of hit 15 os] by simp
    note bb = b[OF big]
    have "\<not> 15 < k"
    proof
      assume "15 < k"
      with bb have "length (filter hit (take 15 os)) < 15" by blast
      with h15 show False by simp
    qed
    moreover have "\<not> k < 15"
    proof
      assume lt: "k < 15"
      with hits_le[of hit k os] have "length (filter hit (take k os)) \<noteq> 15" by simp
      with bb have "k = mx" by simp
      with mx60 lt show False by simp
    qed
    ultimately have k15: "k = 15" by simp
    with h15 bb show ?thesis by simp
  qed
  have fl_eq: "fst (scan_images e r urls w0) = fl"
    and st_eq: "fst (snd (scan_images e r urls w0)) = st" using s by simp_all
  show ?thesis
    unfolding Let_def fl_eq st_eq tot_def[symmetric] mx_def[symmetric] os_def[symmetric]
      k_def[symmetric]
    using a1 a2 b c d by blast
qed

theorem C2_early_exit_witness:
  "(length (replicate 60 ''m'') = 60
    \<and> list_all hit (take 15 (outcomes demo_env (DemoEncoding 0)
         (snd (select_limits (length (replicate 60 ''m''))))
         (take (fst (select_limits (length (replicate 60 ''m'')))) (replicate 60 ''m'')) [])))
   \<and> processed_count (fst (snd (scan_images demo_env (DemoEncoding 0) (replicate 60 ''m'') [])))
       = 15
   \<and> fst (scan_images demo_env (DemoEncoding 0) (replicate 60 ''m'') []) = Break1
   \<and> length [''m1'', ''n'', ''m2''] \<le> 50
   \<and> fst (scan_images demo_env (DemoEncoding 0) [''m1'', ''n'', ''m2''] []) = NoBreak
   \<and> processed_count (fst (snd (scan_images demo_env (DemoEncoding 0) [''m1'', ''n'', ''m2''] [])))
       = length [''m1'', ''n'', ''m2'']"
proof -
  have h: "length (replicate 60 ''m'') = 60
    \<and> list_all hit (take 15 (outcomes demo_env (DemoEncoding 0)
         (snd (select_limits (length (replicate 60 ''m''))))
         (take (fst (select_limits (length (replicate 60 ''m'')))) (replicate 60 ''m'')) []))"
    by code_simp
  have g: "length [''m1'', ''n'', ''m2''] \<le> 50" by simp
  note i = C2_early_exit[of "replicate 60 ''m''" demo_env "DemoEncoding 0" "[]",
      unfolded Let_def]
  note j = C2_early_exit[of "[''m1'', ''n'', ''m2'']" demo_env "DemoEncoding 0" "[]",
      unfolded Let_def]
  from i h have a: "processed_count (fst (snd (scan_images demo_env (DemoEncoding 0)
        (replicate 60 ''m'') []))) = 15
     \<and> fst (scan_images demo_env (DemoEncoding 0) (replicate 60 ''m'') []) = Break1"
    by blast
  from j g have b: "fst (scan_images demo_env (DemoEncoding 0) [''m1'', ''n'', ''m2''] []) = NoBreak
   \<and> processed_count (fst (snd (scan_images demo_env (DemoEncoding 0) [''m1'', ''n'', ''m2''] [])))
       = length [''m1'', ''n'', ''m2'']"
    by blast
  from h g a b show ?thesis by blast
qed

lemma filter_take_nth:
  "k \<le> length xs \<Longrightarrow>
     map f (filter P (take k xs)) = map (\<lambda>i. f (xs ! i)) (filter (\<lambda>i. P (xs ! i)) [0..<k])"
proof (induction k)
  case 0
  then show ?case by simp
next
  case (Suc k)
  then have "k < length xs" by simp
  then have "take (Suc k) xs = take k xs @ [xs ! k]" by (rule take_Suc_conv_app_nth)
  with Suc show ?case by simp
qed

text \<open>
  C6. The matched list holds the payloads of exactly the examined candidates that passed
  the test of line 262, in ascending order of their index; when no \<open>break\<close> fires these are
  all such candidates of the slice, and if they sit at the indices 2, 5 and 9 the list is
  the payloads of candidates 2, 5 and 9 in that order.
\<close>

theorem C6_order_preservation:
  "let tot = length urls;
       mx = fst (select_limits tot);
       os = outcomes e r (snd (select_limits tot)) (take mx urls) w0;
       fl = fst (scan_images e r urls w0);
       st = fst (snd (scan_images e r urls w0));
       k = processed_count st
   in k \<le> length os
    \<and> matched_images st = map payload (filter hit (take k os))
    \<and> matched_images st
        = map (\<lambda>i. payload (os ! i)) (filter (\<lambda>i. hit (os ! i)) [0..<k])
    \<and> (fl = NoBreak \<longrightarrow> matched_images st = map payload (filter hit os))
    \<and> (fl = NoBreak \<and> filter (\<lambda>i. hit (os ! i)) [0..<length os] = [2, 5, 9] \<longrightarrow>
         matched_images st = [payload (os ! 2), payload (os ! 5), payload (os ! 9)])"
proof -
  define tot where "tot = length urls"
  define mx where "mx = fst (select_limits tot)"
  define os where "os = outcomes e r (snd (select_limits tot)) (take mx urls) w0"
  obtain fl st w where s: "scan_images e r urls w0 = (fl, st, w)"
    by (cases "scan_images e r urls w0") blast
  define k where "k = processed_count st"
  note f = scan_result_facts[OF s, folded tot_def, folded mx_def, folded os_def, folded k_def]
  have lenos: "length os = mx"
    unfolding os_def mx_def tot_def by (rule length_outcomes_limits)
  have a: "k \<le> length os" using f(1) lenos by simp
  have b: "matched_images st = map payload (filter hit (take k os))" by (rule f(6))
  have c: "matched_images st
        = map (\<lambda>i. payload (os ! i)) (filter (\<lambda>i. hit (os ! i)) [0..<k])"
    using b filter_take_nth[OF a, of payload hit] by simp
  have d: "matched_images st = map payload (filter hit os)" if "fl = NoBreak"
  proof -
    from that f(2) lenos have "k = length os" by simp
    with b show ?thesis by simp
  qed
  have e: "matched_images st = [payload (os ! 2), payload (os ! 5), payload (os ! 9)]"
    if h: "fl = NoBreak \<and> filter (\<lambda>i. hit (os ! i)) [0..<length os] = [2, 5, 9]"
  proof -
    from h f(2) lenos have "k = length os" by simp
    with c h show ?thesis by simp
  qed
  have fl_eq: "fst (scan_images e r urls w0) = fl"
    and st_eq: "fst (snd (scan_images e r urls w0)) = st" using s by simp_all
  show ?thesis
    unfolding Let_def fl_eq st_eq tot_def[symmetric] mx_def[symmetric] os_def[symmetric]
      k_def[symmetric]
    using a b c d e by blast
qed

theorem C6_order_preservation_witness:
  "(fst (scan_images demo_env (DemoEncoding 0)
          [''n0'', ''n1'', ''m2'', ''n3'', ''n4'', ''m5'', ''n6'', ''n7'', ''n8'', ''m9''] [])
      = NoBreak
    \<and> filter (\<lambda>i. hit (outcomes demo_env (DemoEncoding 0)
          (snd (select_limits (length
             [''n0'', ''n1'', ''m2'', ''n3'', ''n4'', ''m5'', ''n6'', ''n7'', ''n8'', ''m9''])))
          (take (fst (select_limits (length
             [''n0'', ''n1'', ''m2'', ''n3'', ''n4'', ''m5'', ''n6'', ''n7'', ''n8'', ''m9''])))
             [''n0'', ''n1'', ''m2'', ''n3'', ''n4'', ''m5'', ''n6'', ''n7'', ''n8'', ''m9''])
          [] ! i))
        [0..<length (outcomes demo_env (DemoEncoding 0)
          (snd (select_limits (length
             [''n0'', ''n1'', ''m2'', ''n3'', ''n4'', ''m5'', ''n6'', ''n7'', ''n8'', ''m9''])))
          (take (fst (select_limits (length
             [''n0'', ''n1'', ''m2'', ''n3'', ''n4'', ''m5'', ''n6'', ''n7'', ''n8'', ''m9''])))
             [''n0'', ''n1'', ''m2'', ''n3'', ''n4'', ''m5'', ''n6'', ''n7'', ''n8'', ''m9''])
          [])]
      = [2, 5, 9])
   \<and> matched_images (fst (snd (scan_images demo_env (DemoEncoding 0)
          [''n0'', ''n1'', ''m2'', ''n3'', ''n4'', ''m5'', ''n6'', ''n7'', ''n8'', ''m9''] [])))
      = [''m2'', ''m5'', ''m9'']"
proof -
  let ?U = "[''n0'', ''n1'', ''m2'', ''n3'', ''n4'', ''m5'', ''n6'', ''n7'', ''n8'', ''m9'']"
  let ?os = "outcomes demo_env (DemoEncoding 0) (snd (select_limits (length ?U)))
          (take (fst (select_limits (length ?U))) ?U) []"
  have h: "fst (scan_images demo_env (DemoEncoding 0) ?U []) = NoBreak
    \<and> filter (\<lambda>i. hit (?os ! i)) [0..<length ?os] = [2, 5, 9]"
    by code_simp
  have p: "[payload (?os ! 2), payload (?os ! 5), payload (?os ! 9)] = [''m2'', ''m5'', ''m9'']"
    by code_simp
  note i = C6_order_preservation[of ?U demo_env "DemoEncoding 0" "[]", unfolded Let_def]
  from i h have "matched_images (fst (snd (scan_images demo_env (DemoEncoding 0) ?U [])))
      = [payload (?os ! 2), payload (?os ! 5), payload (?os ! 9)]"
    by blast
  then have "matched_images (fst (snd (scan_images demo_env (DemoEncoding 0) ?U [])))
      = [''m2'', ''m5'', ''m9'']" by (simp only: p)
  with h show ?thesis by blast
qed

lemma loop_trace_head:
  "(NoBreak, cs, st, w) \<in> set (loop_trace e r tot mx tol cs st w)"
  by (cases cs) simp_all

lemma in_trace_step:
  assumes "(NoBreak, c # cs, st, w) \<in> set (loop_trace e r tot mx tol cands st0 w0)"
    and "iteration e r tot mx tol c st w = (fl, st', w')"
  shows "(fl, cs, st', w') \<in> set (loop_trace e r tot mx tol cands st0 w0)"
  using assms
proof (induction cands arbitrary: st0 w0)
  case Nil
  then show ?case by simp
next
  case (Cons c0 cs0)
  obtain f1 st1 w1 where it0: "iteration e r tot mx tol c0 st0 w0 = (f1, st1, w1)"
    by (cases "iteration e r tot mx tol c0 st0 w0") blast
  define T where "T = (case f1 of
        NoBreak \<Rightarrow> loop_trace e r tot mx tol cs0 st1 w1
      | Break1 \<Rightarrow> [(Break1, cs0, st1, w1)]
      | Break2 \<Rightarrow> [(Break2, cs0, st1, w1)])"
  have tr: "loop_trace e r tot mx tol (c0 # cs0) st0 w0 = (NoBreak, c0 # cs0, st0, w0) # T"
    unfolding T_def using it0 by (cases f1) simp_all
  have nxt: "(f1, cs0, st1, w1) \<in> set T"
    unfolding T_def by (cases f1) (simp_all add: loop_trace_head)
  show ?case
  proof (cases "(NoBreak, c # cs, st, w) = (NoBreak, c0 # cs0, st0, w0)")
    case True
    with it0 Cons.prems(2) have "f1 = fl" "st1 = st'" "w1 = w'" "cs0 = cs" by simp_all
    with nxt tr show ?thesis by simp
  next
    case False
    from Cons.prems(1)[unfolded tr] have
      "(NoBreak, c # cs, st, w) = (NoBreak, c0 # cs0, st0, w0) \<or> (NoBreak, c # cs, st, w) \<in> set T"
      by (simp only: set_simps insert_iff)
    with False have rest: "(NoBreak, c # cs, st, w) \<in> set T" by blast
    show ?thesis
    proof (cases f1)
      case NoBreak
      with rest have "(NoBreak, c # cs, st, w) \<in> set (loop_trace e r tot mx tol cs0 st1 w1)"
        unfolding T_def by simp
      from Cons.IH[OF this Cons.prems(2)] NoBreak have "(fl, cs, st', w') \<in> set T"
        unfolding T_def by simp
      with tr show ?thesis by simp
    next
      case Break1
      with rest show ?thesis unfolding T_def by simp
    next
      case Break2
      with rest show ?thesis unfolding T_def by simp
    qed
  qed
qed

lemma no_image_or_face_real:
  assumes "no_image_or_face e resp"
  shows "real_mode_match e resp r tol = Inr (False, None)"
proof (cases "content resp")
  case (Inl err)
  with assms show ?thesis by (simp add: no_image_or_face_def)
next
  case (Inr data)
  note c = this
  show ?thesis
  proof (cases "imdecode e data")
    case (Inl err)
    with assms c show ?thesis by (simp add: no_image_or_face_def)
  next
    case (Inr oimg)
    note d = this
    show ?thesis
    proof (cases oimg)
      case None
      with c d show ?thesis by (simp add: real_mode_match_def)
    next
      case (Some img)
      note i = this
      show ?thesis
      proof (cases "face_encodings e img")
        case (Inl err)
        with assms c d i show ?thesis by (simp add: no_image_or_face_def)
      next
        case (Inr fes)
        with assms c d i have "fes = []"
          by (cases fes) (simp_all add: no_image_or_face_def)
        with Inr c d i show ?thesis by (simp add: real_mode_match_def)
      qed
    qed
  qed
qed

lemma candidate_fails_check:
  assumes "candidate_fails e r tol url w"
  shows "fst (check_face_match e url r 15 tol w) = (False, None)"
proof (cases "requests_get e url 15 w")
  case (Pair res w1)
  show ?thesis
  proof (cases res)
    case (Inl err)
    with Pair show ?thesis by (simp add: check_face_match_def)
  next
    case (Inr resp)
    show ?thesis
    proof (cases "FACE_RECOGNITION_AVAILABLE e")
      case True
      show ?thesis
      proof (cases "real_mode_match e resp r tol")
        case (Inl err)
        with Pair Inr True show ?thesis by (simp add: check_face_match_def face_match_def)
      next
        case (Inr res2)
        with assms Pair \<open>res = Inr resp\<close> True have nf: "no_image_or_face e resp"
          by (simp add: candidate_fails_def)
        then have "real_mode_match e resp r tol = Inr (False, None)"
          by (rule no_image_or_face_real)
        with Pair \<open>res = Inr resp\<close> True show ?thesis
          by (simp add: check_face_match_def face_match_def)
      qed
    next
      case False
      obtain d w2 where dm: "demo_mode_match e resp r w1 = (d, w2)"
        by (cases "demo_mode_match e resp r w1") blast
      with assms Pair Inr False obtain err where "d = Inl err"
        by (cases d) (simp_all add: candidate_fails_def)
      with dm Pair Inr False show ?thesis
        by (simp add: check_face_match_def face_match_def)
    qed
  qed
qed

lemma scan_trace_step:
  assumes "(NoBreak, c # cs, st, w) \<in> set (scan_trace e r urls w0)"
    and "iteration e r (length urls) (fst (select_limits (length urls)))
           (snd (select_limits (length urls))) c st w = (fl, st', w')"
  shows "(fl, cs, st', w') \<in> set (scan_trace e r urls w0)"
  using assms unfolding scan_trace_unfold by (rule in_trace_step)

text \<open>
  C5. At the head of any iteration of a scan, a candidate that fails (its fetch raises,
  reading or decoding its body raises, the decoder finds no image or no face, or the
  comparison raises) makes the matcher answer \<open>(False, None)\<close>; the iteration leaves the
  matched list as it was, fires no \<open>break\<close>, and the loop goes on with the next candidate
  exactly as it would from there.
\<close>

theorem C5_failure_isolation:
  assumes "(NoBreak, c # cs, st, w) \<in> set (scan_trace e r urls w0)"
    and "candidate_fails e r (snd (select_limits (length urls))) (snd c) w"
  shows "let tot = length urls;
             mx = fst (select_limits tot);
             tol = snd (select_limits tot);
             w' = snd (check_face_match e (snd c) r 15 tol w);
             st' = st\<lparr>processed_count := processed_count st + 1,
                       examined := examined st @ [c]\<rparr>
         in fst (check_face_match e (snd c) r 15 tol w) = (False, None)
          \<and> iteration e r tot mx tol c st w = (NoBreak, st', w')
          \<and> matched_images st' = matched_images st
          \<and> process_loop e r tot mx tol (c # cs) st w = process_loop e r tot mx tol cs st' w'
          \<and> (NoBreak, cs, st', w') \<in> set (scan_trace e r urls w0)"
proof -
  define tot where "tot = length urls"
  define mx where "mx = fst (select_limits tot)"
  define tol where "tol = snd (select_limits tot)"
  define w' where "w' = snd (check_face_match e (snd c) r 15 tol w)"
  define st' where "st' = st\<lparr>processed_count := processed_count st + 1,
                       examined := examined st @ [c]\<rparr>"
  from scan_trace_inv[OF assms(1)] have inv: "scan_inv e r urls w0 (NoBreak, c # cs, st, w)" .
  from scan_inv_examined(1)[OF inv] have mxpos: "0 < mx" unfolding mx_def tot_def by simp
  from scan_inv_flow[OF inv] have nb: "early_exit tot (length (matched_images st)) = NoBreak"
    unfolding tot_def by simp
  have a: "fst (check_face_match e (snd c) r 15 tol w) = (False, None)"
    using assms(2) unfolding tol_def tot_def by (rule candidate_fails_check)
  then have chk: "check_face_match e (snd c) r 15 tol w = ((False, None), w')"
    unfolding w'_def by (simp add: prod_eq_iff)
  have b: "iteration e r tot mx tol c st w = (NoBreak, st', w')"
    using iteration_pos[OF mxpos chk, of tot st] nb unfolding st'_def by simp
  have c': "matched_images st' = matched_images st" unfolding st'_def by simp
  have d: "process_loop e r tot mx tol (c # cs) st w = process_loop e r tot mx tol cs st' w'"
    using b by simp
  have e': "(NoBreak, cs, st', w') \<in> set (scan_trace e r urls w0)"
    using scan_trace_step[OF assms(1) b[unfolded mx_def tol_def tot_def]] .
  show ?thesis
    unfolding Let_def tot_def[symmetric] mx_def[symmetric] tol_def[symmetric]
      w'_def[symmetric] st'_def[symmetric]
    using a b c' d e' by blast
qed

theorem C5_failure_isolation_witness:
  "((NoBreak, [(1, ''bad''), (2, ''m2'')],
      \<lparr>matched_images = [''m1''], processed_count = 1, examined = [(0, ''m1'')]\<rparr>, [])
      \<in> set (scan_trace demo_env (DemoEncoding 0) [''m1'', ''bad'', ''m2''] [])
    \<and> candidate_fails demo_env (DemoEncoding 0)
         (snd (select_limits (length [''m1'', ''bad'', ''m2'']))) (snd (1::nat, ''bad'')) [])
   \<and> (NoBreak, [(2, ''m2'')],
      \<lparr>matched_images = [''m1''], processed_count = 1, examined = [(0, ''m1'')]\<rparr>
        \<lparr>processed_count := processed_count
            \<lparr>matched_images = [''m1''], processed_count = 1, examined = [(0, ''m1'')]\<rparr> + 1,
         examined := examined
            \<lparr>matched_images = [''m1''], processed_count = 1, examined = [(0, ''m1'')]\<rparr>
            @ [(1, ''bad'')]\<rparr>,
      snd (check_face_match demo_env (snd (1::nat, ''bad'')) (DemoEncoding 0) 15
         (snd (select_limits (length [''m1'', ''bad'', ''m2'']))) []))
      \<in> set (scan_trace demo_env (DemoEncoding 0) [''m1'', ''bad'', ''m2''] [])"
proof -
  have m: "(NoBreak, [(1, ''bad''), (2, ''m2'')],
      \<lparr>matched_images = [''m1''], processed_count = 1, examined = [(0, ''m1'')]\<rparr>, [])
      \<in> set (scan_trace demo_env (DemoEncoding 0) [''m1'', ''bad'', ''m2''] [])"
    by code_simp
  have f: "candidate_fails demo_env (DemoEncoding 0)
         (snd (select_limits (length [''m1'', ''bad'', ''m2'']))) (snd (1::nat, ''bad'')) []"
    by code_simp
  note i = C5_failure_isolation[OF m f, unfolded Let_def]
  from i m f show ?thesis by blast
qed

text \<open>
  C4, as stated, fails for the stand-in matcher of demo mode: it draws from
  \<open>random.random()\<close> whenever the similarity score is 35 or more. Two successive calls
  on the same body, the same reference and the same tolerance answer differently when
  the first draw is 0.9 and the second 0.1.
\<close>

theorem C4_demo_random_counterexample:
  "fst (face_match demo_env \<lparr>content = Inr ''n'', body_text = []\<rparr> (DemoEncoding 0) 0.6
          [9 / 10, 1 / 10]) = (False, None)
   \<and> fst (face_match demo_env \<lparr>content = Inr ''n'', body_text = []\<rparr> (DemoEncoding 0) 0.6
          (snd (face_match demo_env \<lparr>content = Inr ''n'', body_text = []\<rparr> (DemoEncoding 0)
                  0.6 [9 / 10, 1 / 10]))) = (True, Some ''n'')"
  by code_simp

lemma demo_mode_match_draw:
  assumes "fst (random_random e w1) < 0.25 \<longleftrightarrow> fst (random_random e w2) < 0.25"
  shows "fst (demo_mode_match e resp r w1) = fst (demo_mode_match e resp r w2)"
proof (cases "content resp")
  case (Inl err)
  then show ?thesis by (simp add: demo_mode_match_def)
next
  case (Inr data)
  note c = this
  show ?thesis
  proof (cases "image_open e data")
    case (Inl err)
    with c show ?thesis by (simp add: demo_mode_match_def)
  next
    case (Inr pixels)
    note p = this
    show ?thesis
    proof (cases r)
      case (FaceEncoding v)
      with c p show ?thesis by (simp add: demo_mode_match_def)
    next
      case (DemoEncoding h)
      obtain x1 v1 where r1: "random_random e w1 = (x1, v1)"
        by (cases "random_random e w1") blast
      obtain x2 v2 where r2: "random_random e w2 = (x2, v2)"
        by (cases "random_random e w2") blast
      from assms r1 r2 have "x1 < 0.25 \<longleftrightarrow> x2 < 0.25" by simp
      with c p DemoEncoding r1 r2 show ?thesis
        by (simp add: demo_mode_match_def Let_def)
    qed
  qed
qed

lemma face_match_real:
  assumes "FACE_RECOGNITION_AVAILABLE e"
  shows "face_match e resp r tol w =
     ((case real_mode_match e resp r tol of Inl err \<Rightarrow> (False, None) | Inr res \<Rightarrow> res), w)"
  using assms by (cases "real_mode_match e resp r tol") (simp_all add: face_match_def)

lemma face_match_demo:
  assumes "\<not> FACE_RECOGNITION_AVAILABLE e"
  shows "face_match e resp r tol w =
     ((case fst (demo_mode_match e resp r w) of Inl err \<Rightarrow> (False, None) | Inr res \<Rightarrow> res),
      snd (demo_mode_match e resp r w))"
proof (cases "demo_mode_match e resp r w")
  case (Pair d v)
  with assms show ?thesis by (cases d) (simp_all add: face_match_def)
qed

text \<open>
  C4, amended. In real mode the answer of the matcher for a body, a reference and a
  tolerance does not depend on the state of the world. In demo mode it depends on that
  state only through whether the next draw of \<open>random.random()\<close> is below 0.25. In real
  mode a body whose decoding raises or gives no image, or in which no face is found, is
  answered \<open>(False, None)\<close>; in demo mode so is a body that does not open as an image. In
  no case is an exception passed on.
\<close>

theorem C4_matcher_determinism:
  "(FACE_RECOGNITION_AVAILABLE e \<longrightarrow>
      fst (face_match e resp r tol w1) = fst (face_match e resp r tol w2))
   \<and> (\<not> FACE_RECOGNITION_AVAILABLE e
       \<and> (fst (random_random e w1) < 0.25 \<longleftrightarrow> fst (random_random e w2) < 0.25) \<longrightarrow>
      fst (face_match e resp r tol w1) = fst (face_match e resp r tol w2))
   \<and> (FACE_RECOGNITION_AVAILABLE e \<and> content resp = Inr data
       \<and> (imdecode e data = Inl err \<or> imdecode e data = Inr None
          \<or> (imdecode e data = Inr (Some img) \<and> face_encodings e img = Inr [])) \<longrightarrow>
      face_match e resp r tol w1 = ((False, None), w1))
   \<and> (\<not> FACE_RECOGNITION_AVAILABLE e \<and> content resp = Inr data
       \<and> image_open e data = Inl err \<longrightarrow>
      face_match e resp r tol w1 = ((False, None), w1))"
proof (intro conjI impI)
  assume "FACE_RECOGNITION_AVAILABLE e"
  then show "fst (face_match e resp r tol w1) = fst (face_match e resp r tol w2)"
    by (simp add: face_match_real)
next
  assume a: "\<not> FACE_RECOGNITION_AVAILABLE e
       \<and> (fst (random_random e w1) < 0.25 \<longleftrightarrow> fst (random_random e w2) < 0.25)"
  have eq: "fst (demo_mode_match e resp r w1) = fst (demo_mode_match e resp r w2)"
    by (rule demo_mode_match_draw[OF a[THEN conjunct2]])
  have nf: "\<not> FACE_RECOGNITION_AVAILABLE e" by (rule a[THEN conjunct1])
  show "fst (face_match e resp r tol w1) = fst (face_match e resp r tol w2)"
    unfolding face_match_demo[OF nf] fst_conv eq ..
next
  assume a: "FACE_RECOGNITION_AVAILABLE e \<and> content resp = Inr data
       \<and> (imdecode e data = Inl err \<or> imdecode e data = Inr None
          \<or> (imdecode e data = Inr (Some img) \<and> face_encodings e img = Inr []))"
  have f: "FACE_RECOGNITION_AVAILABLE e" by (rule a[THEN conjunct1])
  have c: "content resp = Inr data" by (rule a[THEN conjunct2, THEN conjunct1])
  note dj = a[THEN conjunct2, THEN conjunct2]
  from dj consider (raise) "imdecode e data = Inl err" | (none) "imdecode e data = Inr None"
    | (noface) "imdecode e data = Inr (Some img)" "face_encodings e img = Inr []" by blast
  then have "(case real_mode_match e resp r tol of Inl err \<Rightarrow> (False, None) | Inr res \<Rightarrow> res)
       = (False, None)"
  proof cases
    case raise
    with c show ?thesis by (simp add: real_mode_match_def)
  next
    case none
    with c show ?thesis by (simp add: real_mode_match_def)
  next
    case noface
    with c show ?thesis by (simp add: real_mode_match_def)
  qed
  then show "face_match e resp r tol w1 = ((False, None), w1)"
    by (simp only: face_match_real[OF f])
next
  assume a: "\<not> FACE_RECOGNITION_AVAILABLE e \<and> content resp = Inr data
       \<and> image_open e data = Inl err"
  have nf: "\<not> FACE_RECOGNITION_AVAILABLE e" by (rule a[THEN conjunct1])
  from a[THEN conjunct2] have "demo_mode_match e resp r w1 = (Inl err, w1)"
    by (simp add: demo_mode_match_def)
  then show "face_match e resp r tol w1 = ((False, None), w1)"
    by (simp add: face_match_demo[OF nf])
qed

theorem C4_matcher_determinism_witness:
  "(FACE_RECOGNITION_AVAILABLE real_env
      \<and> content \<lparr>content = Inr ''x'', body_text = []\<rparr> = Inr ''x''
      \<and> imdecode real_env ''x'' = Inr None)
   \<and> face_match real_env \<lparr>content = Inr ''x'', body_text = []\<rparr> (FaceEncoding 97) 0.6 ()
        = ((False, None), ())
   \<and> (\<not> FACE_RECOGNITION_AVAILABLE demo_env
      \<and> (fst (random_random demo_env [1 / 10]) < 0.25
           \<longleftrightarrow> fst (random_random demo_env [2 / 10]) < 0.25))
   \<and> fst (face_match demo_env \<lparr>content = Inr ''n'', body_text = []\<rparr> (DemoEncoding 0) 0.6
            [1 / 10])
        = fst (face_match demo_env \<lparr>content = Inr ''n'', body_text = []\<rparr> (DemoEncoding 0) 0.6
            [2 / 10])
   \<and> image_open demo_env ''x'' = Inl ImageError
   \<and> face_match demo_env \<lparr>content = Inr ''x'', body_text = []\<rparr> (DemoEncoding 0) 0.6 []
        = ((False, None), [])"
proof -
  have h1: "FACE_RECOGNITION_AVAILABLE real_env
      \<and> content \<lparr>content = Inr ''x'', body_text = []\<rparr> = Inr ''x''
      \<and> imdecode real_env ''x'' = Inr None"
    by code_simp
  have h2: "\<not> FACE_RECOGNITION_AVAILABLE demo_env
      \<and> (fst (random_random demo_env [1 / 10]) < 0.25
           \<longleftrightarrow> fst (random_random demo_env [2 / 10]) < 0.25)"
    by code_simp
  have h3: "content \<lparr>content = Inr ''x'', body_text = []\<rparr> = Inr ''x''
      \<and> image_open demo_env ''x'' = Inl ImageError"
    by code_simp
  note i1 = C4_matcher_determinism[where e = real_env
      and resp = "\<lparr>content = Inr ''x'', body_text = []\<rparr>" and data = "''x''"
      and r = "FaceEncoding 97" and tol = "0.6" and ?w1.0 = "()" and ?w2.0 = "()"
      and err = ImageError and img = "[]"]
  note i2 = C4_matcher_determinism[where e = demo_env
      and resp = "\<lparr>content = Inr ''n'', body_text = []\<rparr>" and data = "''n''"
      and r = "DemoEncoding 0" and tol = "0.6" and ?w1.0 = "[1 / 10]" and ?w2.0 = "[2 / 10]"
      and err = ImageError and img = "()"]
  note i3 = C4_matcher_determinism[where e = demo_env
      and resp = "\<lparr>content = Inr ''x'', body_text = []\<rparr>" and data = "''x''"
      and r = "DemoEncoding 0" and tol = "0.6" and ?w1.0 = "[]" and ?w2.0 = "[]"
      and err = ImageError and img = "()"]
  from i1 h1 have a: "face_match real_env \<lparr>content = Inr ''x'', body_text = []\<rparr>
       (FaceEncoding 97) 0.6 () = ((False, None), ())" by blast
  from i2 h2 have b: "fst (face_match demo_env \<lparr>content = Inr ''n'', body_text = []\<rparr>
       (DemoEncoding 0) 0.6 [1 / 10])
        = fst (face_match demo_env \<lparr>content = Inr ''n'', body_text = []\<rparr> (DemoEncoding 0) 0.6
            [2 / 10])" by blast
  from i3 h2 h3 have c: "face_match demo_env \<lparr>content = Inr ''x'', body_text = []\<rparr>
       (DemoEncoding 0) 0.6 [] = ((False, None), [])" by blast
  from h1 h2 h3 a b c show ?thesis by blast
qed

lemma get_drive_images_length: "length (fst (get_drive_images e folder_id mx w)) \<le> mx"
proof (cases "requests_get e (''https://drive.google.com/drive/folders/'' @ folder_id) 10 w")
  case (Pair res w1)
  then show ?thesis
    by (cases res) (simp_all add: get_drive_images_def Let_def)
qed

lemma select_limits_50: "n \<le> 50 \<Longrightarrow> select_limits n = (n, 0.6)"
  by (simp add: select_limits_def)

text \<open>
  C10. Discovery is called with its default limit, so a scan started by the handler has
  between 1 and 50 candidates. Its limits are then all the candidates at tolerance 0.60
  (the cap of 60 and the tier above 100 are never the ones chosen), the test for an early
  exit answers no whatever the number of matches, and the scan runs through every
  candidate without a \<open>break\<close>.
\<close>

theorem C10_discovery_cap:
  assumes "fst (handler_scan e r folder_id w) = Some res"
  shows "fst res = fst (get_drive_images e folder_id 50 w)
       \<and> snd res = scan_images e r (fst res) (snd (get_drive_images e folder_id 50 w))
       \<and> 0 < length (fst res) \<and> length (fst res) \<le> 50
       \<and> select_limits (length (fst res)) = (length (fst res), 0.6)
       \<and> (\<forall>m. early_exit (length (fst res)) m = NoBreak)
       \<and> fst (snd res) = NoBreak
       \<and> processed_count (fst (snd (snd res))) = length (fst res)"
proof -
  obtain urls w1 where g: "get_drive_images e folder_id 50 w = (urls, w1)"
    by (cases "get_drive_images e folder_id 50 w") blast
  from assms g have ne: "urls \<noteq> []" and res: "res = (urls, scan_images e r urls w1)"
    by (auto simp: handler_scan_def split: if_splits)
  from get_drive_images_length[of e folder_id 50 w] g have le: "length urls \<le> 50" by simp
  obtain fl st w2 where s: "scan_images e r urls w1 = (fl, st, w2)"
    by (cases "scan_images e r urls w1") blast
  note f = scan_result_facts[OF s]
  have nb: "early_exit (length urls) m = NoBreak" for m
    using le by (rule early_exit_small)
  from f(5) nb have fl: "fl = NoBreak" by simp
  with f(2) select_limits_small[OF le] have k: "processed_count st = length urls" by simp
  from ne le res g s fl k nb select_limits_50[OF le] show ?thesis by simp
qed

lemma handler_scan_Some:
  assumes "fst (get_drive_images e folder_id 50 w) \<noteq> []"
  shows "fst (handler_scan e r folder_id w)
     = Some (fst (get_drive_images e folder_id 50 w),
             scan_images e r (fst (get_drive_images e folder_id 50 w))
               (snd (get_drive_images e folder_id 50 w)))"
proof (cases "get_drive_images e folder_id 50 w")
  case (Pair urls w1)
  with assms show ?thesis by (simp add: handler_scan_def)
qed

theorem C10_discovery_cap_witness:
  "fst (handler_scan demo_env (DemoEncoding 0) ''f'' [])
     = Some (fst (get_drive_images demo_env ''f'' 50 []),
             scan_images demo_env (DemoEncoding 0) (fst (get_drive_images demo_env ''f'' 50 []))
               (snd (get_drive_images demo_env ''f'' 50 [])))
   \<and> length (re_findall demo_env []) = 70
   \<and> length (fst (get_drive_images demo_env ''f'' 50 [])) = 50
   \<and> fst (scan_images demo_env (DemoEncoding 0) (fst (get_drive_images demo_env ''f'' 50 []))
               (snd (get_drive_images demo_env ''f'' 50 []))) = NoBreak
   \<and> processed_count (fst (snd (scan_images demo_env (DemoEncoding 0)
         (fst (get_drive_images demo_env ''f'' 50 []))
         (snd (get_drive_images demo_env ''f'' 50 []))))) = 50"
proof -
  have g: "length (re_findall demo_env []) = 70
     \<and> length (fst (get_drive_images demo_env ''f'' 50 [])) = 50"
    by code_simp
  then have "fst (get_drive_images demo_env ''f'' 50 []) \<noteq> []" by auto
  then have h: "fst (handler_scan demo_env (DemoEncoding 0) ''f'' [])
     = Some (fst (get_drive_images demo_env ''f'' 50 []),
             scan_images demo_env (DemoEncoding 0) (fst (get_drive_images demo_env ''f'' 50 []))
               (snd (get_drive_images demo_env ''f'' 50 [])))"
    by (rule handler_scan_Some)
  note i = C10_discovery_cap[OF h, simplified fst_conv snd_conv]
  from i have a: "fst (scan_images demo_env (DemoEncoding 0)
        (fst (get_drive_images demo_env ''f'' 50 []))
        (snd (get_drive_images demo_env ''f'' 50 []))) = NoBreak"
    and b: "processed_count (fst (snd (scan_images demo_env (DemoEncoding 0)
         (fst (get_drive_images demo_env ''f'' 50 []))
         (snd (get_drive_images demo_env ''f'' 50 [])))))
       = length (fst (get_drive_images demo_env ''f'' 50 []))"
    by blast+
  from g have l: "length (fst (get_drive_images demo_env ''f'' 50 [])) = 50" by blast
  from b have b': "processed_count (fst (snd (scan_images demo_env (DemoEncoding 0)
         (fst (get_drive_images demo_env ''f'' 50 []))
         (snd (get_drive_images demo_env ''f'' 50 []))))) = 50" by (simp only: l)
  from h g a b' show ?thesis by blast
qed

text \<open>
  C8. For the empty list \<open>create_photos_zip\<close> does not fail, whatever the library's
  \<open>writestr\<close> would do (it is never called): the result is the archive with no member, in
  which no name can be read and from which nothing is extracted.
\<close>

theorem C8_empty_archive:
  "create_photos_zip ws [] = Some \<lparr>compression = ZIP_DEFLATED, filelist = []\<rparr>
   \<and> zip_namelist \<lparr>compression = ZIP_DEFLATED, filelist = []\<rparr> = []
   \<and> zip_read \<lparr>compression = ZIP_DEFLATED, filelist = []\<rparr> name = None
   \<and> zip_extract \<lparr>compression = ZIP_DEFLATED, filelist = []\<rparr> = Map.empty"
  by (simp add: create_photos_zip_def enumerate_eq_zip zip_namelist_def zip_read_def
      zip_extract_def)

section \<open>The archive lemmas\<close>

lemma digit_val_digit_char: "d < 10 \<Longrightarrow> digit_val (digit_char d) = d"
  by (simp add: digit_val_def digit_char_def)

lemma nat_of_digits_snoc: "nat_of_digits (s @ [c]) = 10 * nat_of_digits s + digit_val c"
  by (simp add: nat_of_digits_def)

lemma nat_of_digits_str_nat: "nat_of_digits (str_nat n) = n"
proof (induction n rule: str_nat.induct)
  case (1 n)
  show ?case
  proof (cases "n < 10")
    case True
    then have "str_nat n = [digit_char n]" by (subst str_nat.simps) simp
    with True show ?thesis
      using nat_of_digits_snoc[of "[]" "digit_char n"]
      by (simp add: digit_val_digit_char nat_of_digits_def)
  next
    case False
    then have s: "str_nat n = str_nat (n div 10) @ [digit_char (n mod 10)]"
      by (subst str_nat.simps) simp
    from False "1.IH" have "nat_of_digits (str_nat (n div 10)) = n div 10" by simp
    with s show ?thesis
      by (simp add: nat_of_digits_snoc digit_val_digit_char)
  qed
qed

lemma foldl_zeros:
  "foldl (\<lambda>a c. 10 * a + digit_val c) 0 (replicate k (CHR ''0'')) = 0"
  by (induction k) (simp_all add: digit_val_def)

lemma nat_of_digits_format_03d: "nat_of_digits (format_03d n) = n"
proof -
  have "nat_of_digits (format_03d n)
      = foldl (\<lambda>a c. 10 * a + digit_val c)
          (foldl (\<lambda>a c. 10 * a + digit_val c) 0 (replicate (3 - length (str_nat n)) (CHR ''0'')))
          (str_nat n)"
    by (simp add: nat_of_digits_def format_03d_def)
  also have "\<dots> = nat_of_digits (str_nat n)"
    by (simp only: foldl_zeros nat_of_digits_def)
  finally show ?thesis by (simp add: nat_of_digits_str_nat)
qed

lemma length_format_03d: "3 \<le> length (format_03d n)"
  by (simp add: format_03d_def)

lemma length_str_nat_small: "n < 1000 \<Longrightarrow> length (str_nat n) \<le> 3"
proof -
  assume n: "n < 1000"
  show ?thesis
  proof (cases "n < 10")
    case True
    then show ?thesis by (subst str_nat.simps) simp
  next
    case False
    note f1 = this
    show ?thesis
    proof (cases "n div 10 < 10")
      case True
      with f1 show ?thesis
        by (subst str_nat.simps, subst str_nat.simps) simp
    next
      case False
      from n have "n div 10 div 10 < 10" by simp
      with f1 False show ?thesis
        by (subst str_nat.simps, subst str_nat.simps, subst str_nat.simps) simp
    qed
  qed
qed

lemma length_format_03d_small: "n < 1000 \<Longrightarrow> length (format_03d n) = 3"
  using length_str_nat_small[of n] by (simp add: format_03d_def)

lemma inj_photo_filename: "photo_filename i = photo_filename j \<Longrightarrow> i = j"
proof -
  assume "photo_filename i = photo_filename j"
  then have "format_03d (i + 1) = format_03d (j + 1)"
    by (simp add: photo_filename_def)
  then have "nat_of_digits (format_03d (i + 1)) = nat_of_digits (format_03d (j + 1))"
    by simp
  then show "i = j" by (simp add: nat_of_digits_format_03d)
qed

lemma write_photos_zipfile:
  "write_photos zipfile_writestr xs z =
     Inr (z\<lparr>filelist := filelist z @
            map (\<lambda>(i, b). \<lparr>filename = photo_filename i, compress_type = compression z,
                           file_data = b\<rparr>) xs\<rparr>)"
proof (induction xs arbitrary: z)
  case Nil
  then show ?case by simp
next
  case (Cons x xs)
  obtain i b where x: "x = (i, b)" by (cases x) blast
  define z1 where "z1 = z\<lparr>filelist := filelist z @
     [\<lparr>filename = photo_filename i, compress_type = compression z, file_data = b\<rparr>]\<rparr>"
  have ws: "zipfile_writestr z (photo_filename i) b = Inr z1"
    by (simp add: zipfile_writestr_def z1_def)
  then have "write_photos zipfile_writestr (x # xs) z = write_photos zipfile_writestr xs z1"
    unfolding x by simp
  also have "\<dots> = Inr (z1\<lparr>filelist := filelist z1 @
            map (\<lambda>(i, b). \<lparr>filename = photo_filename i, compress_type = compression z1,
                           file_data = b\<rparr>) xs\<rparr>)"
    by (rule Cons.IH)
  also have "\<dots> = Inr (z\<lparr>filelist := filelist z @
            map (\<lambda>(i, b). \<lparr>filename = photo_filename i, compress_type = compression z,
                           file_data = b\<rparr>) (x # xs)\<rparr>)"
    unfolding x by (simp add: z1_def)
  finally show ?case .
qed

lemma zip_read_extract: "zip_read z name = zip_extract z name"
proof -
  have "(case filter (\<lambda>zi. filename zi = name) zs of
           [] \<Rightarrow> None | zi # zis \<Rightarrow> Some (file_data (last (zi # zis))))
        = map_of (rev (map (\<lambda>zi. (filename zi, file_data zi)) zs)) name" for zs
  proof (induction zs rule: rev_induct)
    case Nil
    then show ?case by simp
  next
    case (snoc x xs)
    show ?case
    proof (cases "filename x = name")
      case True
      then have "filter (\<lambda>zi. filename zi = name) (xs @ [x])
          = filter (\<lambda>zi. filename zi = name) xs @ [x]" by simp
      then have "(case filter (\<lambda>zi. filename zi = name) (xs @ [x]) of
           [] \<Rightarrow> None | zi # zis \<Rightarrow> Some (file_data (last (zi # zis)))) = Some (file_data x)"
        by (cases "filter (\<lambda>zi. filename zi = name) xs") simp_all
      with True show ?thesis by simp
    next
      case False
      with snoc show ?thesis by simp
    qed
  qed
  then show ?thesis by (simp add: zip_read_def zip_extract_def)
qed

end
